theory Spec2Isabelle
  imports Main "HOL-Library.Word" "HOL-Library.Char_ord" "HOL-Library.List_Lexorder"
begin

section \<open>Binlog time-range extraction and binary search (internal/binlog/binlog.go)\<close>

subsection \<open>Events, streams and time\<close>

text \<open>
  \<open>time.Time\<close> values are compared only (\<open>Before\<close>, \<open>After\<close>); they are modelled
  as Unix seconds. Header timestamps are \<open>uint32\<close>; \<open>time.Unix(int64(ts), 0)\<close> reads
  one as an unsigned number of seconds. \<open>zeroTime\<close> is the zero value \<open>time.Time{}\<close>
  (January 1, year 1, 00:00:00 UTC).
\<close>

type_synonym time = int

definition unix :: "32 word \<Rightarrow> time" where
  "unix ts = uint ts"

definition zeroTime :: time where
  "zeroTime = - 62135596800"

text \<open>
  A binlog event as the search reads it: the header timestamp and the payload. The
  replication library builds a \<open>RotateEvent\<close> payload exactly for headers whose
  \<open>EventType\<close> is \<open>ROTATE_EVENT\<close>, so the event type test and the type assertion
  of the source are the one case distinction on the payload.
\<close>

datatype event_payload = RotateEvent (NextLogName: string) | GenericEvent

record binlog_event =
  Timestamp :: "32 word"
  Event :: event_payload

text \<open>
  One loop iteration of the source polls the context and then the streamer:
  \<open>CtxDone\<close> when \<open>ctx.Done()\<close> is ready at the \<open>select\<close>, \<open>GetEventError\<close> when
  \<open>streamer.GetEvent(ctx)\<close> returns an error, \<open>GotEvent ev\<close> when it returns an event.
  A streamer is the list of these outcomes in the order the iterations meet them; once
  the list is used up \<open>GetEvent\<close> blocks until the deadline and returns the context's
  error. \<open>StartSync\<close> either fails or yields a streamer.
\<close>

datatype poll = CtxDone | GetEventError | GotEvent binlog_event

datatype sync = StartSyncError | Streamer "poll list"

datatype error = StartSyncFailed | Timeout | GetEventFailed | NoTimestampFound

subsection \<open>GetTimeRangeForBinlog\<close>

text \<open>
  What the body of the first loop does with an event it has read, in the source's
  nesting: the test \<open>i == 0 && nextFile == binlogFile\<close> sits inside the branch
  \<open>nextFile != binlogFile\<close>.
\<close>

datatype first_action = SkipRotate | Found "32 word" | NoTimestamp

definition checkTimestamp :: "binlog_event \<Rightarrow> first_action" where
  "checkTimestamp ev = (if Timestamp ev > 0 then Found (Timestamp ev) else NoTimestamp)"

definition firstEventAction :: "nat \<Rightarrow> string \<Rightarrow> binlog_event \<Rightarrow> first_action" where
  "firstEventAction i binlogFile ev =
     (case Event ev of
        RotateEvent nextFile \<Rightarrow>
          if nextFile \<noteq> binlogFile then
            (if i = 0 \<and> nextFile = binlogFile then SkipRotate else checkTimestamp ev)
          else checkTimestamp ev
      | GenericEvent \<Rightarrow> checkTimestamp ev)"

text \<open>
  The first loop, \<open>for i := 0; i < 10; i++\<close>. It returns an error, or
  \<open>(foundTimestamp, firstTimestamp, rest)\<close> where \<open>rest\<close> is what the streamer still
  holds.
\<close>

fun firstTimestampLoop ::
  "nat \<Rightarrow> string \<Rightarrow> poll list \<Rightarrow> error + (bool \<times> 32 word \<times> poll list)" where
  "firstTimestampLoop i binlogFile ps =
     (if i < 10 then
        (case ps of
           [] \<Rightarrow> Inl GetEventFailed
         | CtxDone # rest \<Rightarrow> Inl Timeout
         | GetEventError # rest \<Rightarrow> Inl GetEventFailed
         | GotEvent ev # rest \<Rightarrow>
             (case firstEventAction i binlogFile ev of
                SkipRotate \<Rightarrow> firstTimestampLoop (i + 1) binlogFile rest
              | Found ts \<Rightarrow> Inr (True, ts, rest)
              | NoTimestamp \<Rightarrow> firstTimestampLoop (i + 1) binlogFile rest))
      else Inr (False, 0, ps))"

declare firstTimestampLoop.simps [simp del]

text \<open>
  The second loop, \<open>for i := 0; i < 1000; i++\<close>, run by the goroutine: it stops at the
  deadline, at the first error of \<open>GetEvent\<close> and after 1000 iterations, and the caller
  reads \<open>lastTimestamp\<close> as the loop left it.
\<close>

fun lastTimestampLoop :: "nat \<Rightarrow> poll list \<Rightarrow> 32 word \<Rightarrow> 32 word" where
  "lastTimestampLoop i ps lastTimestamp =
     (if i < 1000 then
        (case ps of
           [] \<Rightarrow> lastTimestamp
         | CtxDone # rest \<Rightarrow> lastTimestamp
         | GetEventError # rest \<Rightarrow> lastTimestamp
         | GotEvent ev # rest \<Rightarrow>
             if Timestamp ev > 0 then lastTimestampLoop (i + 1) rest (Timestamp ev)
             else lastTimestampLoop (i + 1) rest lastTimestamp)
      else lastTimestamp)"

declare lastTimestampLoop.simps [simp del]

definition GetTimeRangeForBinlog :: "sync \<Rightarrow> string \<Rightarrow> error + (time \<times> time)" where
  "GetTimeRangeForBinlog syncer binlogFile =
     (case syncer of
        StartSyncError \<Rightarrow> Inl StartSyncFailed
      | Streamer ps \<Rightarrow>
          (case firstTimestampLoop 0 binlogFile ps of
             Inl err \<Rightarrow> Inl err
           | Inr (foundTimestamp, firstTimestamp, rest) \<Rightarrow>
               if \<not> foundTimestamp then Inl NoTimestampFound
               else Inr (unix firstTimestamp,
                         unix (lastTimestampLoop 0 rest firstTimestamp))))"

subsection \<open>BinarySearchBinlogs\<close>

text \<open>
  The server is what the syncers of one search meet: \<open>srv k file\<close> is the outcome of
  \<open>StartSync\<close> for the syncer created after \<open>k\<close> earlier extractions, asked for
  \<open>file\<close>. The state of the loop holds the source's variables and \<open>syncs\<close>, the
  extractions made so far with whether each succeeded.
\<close>

type_synonym server = "nat \<Rightarrow> string \<Rightarrow> sync"

record search_state =
  left :: int
  right :: int
  errorCount :: nat
  validFiles :: "string list"
  timeRanges :: "string \<rightharpoonup> (time \<times> time)"
  syncs :: "(string \<times> bool) list"

definition initState :: "nat \<Rightarrow> search_state" where
  "initState n =
     \<lparr>left = 0, right = int n - 1, errorCount = 0, validFiles = [],
      timeRanges = Map.empty, syncs = []\<rparr>"

text \<open>
  The lookup at the head of the loop body: a file already in \<open>timeRanges\<close> is read from
  there; otherwise \<open>GetTimeRangeForBinlog\<close> runs on a new syncer, and only a success is
  stored (\<open>Inl\<close> is the failure branch, with \<open>errorCount\<close> incremented).
\<close>

definition lookupRange ::
  "server \<Rightarrow> search_state \<Rightarrow> string \<Rightarrow> search_state + (search_state \<times> time \<times> time)" where
  "lookupRange srv st file =
     (case timeRanges st file of
        Some (startTime, endTime) \<Rightarrow> Inr (st, startTime, endTime)
      | None \<Rightarrow>
          (case GetTimeRangeForBinlog (srv (length (syncs st)) file) file of
             Inl err \<Rightarrow>
               Inl (st\<lparr>errorCount := errorCount st + 1,
                       syncs := syncs st @ [(file, False)]\<rparr>)
           | Inr (startTime, endTime) \<Rightarrow>
               Inr (st\<lparr>validFiles := List.insert file (validFiles st),
                       timeRanges := (timeRanges st)(file \<mapsto> (startTime, endTime)),
                       syncs := syncs st @ [(file, True)]\<rparr>,
                    startTime, endTime)))"

text \<open>
  How the loop is left: by \<open>return binlogFiles[mid], true\<close>, by its condition or
  \<open>break\<close>, or by an index out of range.
\<close>

datatype loop_exit = Matched search_state string | Ended search_state | IndexPanic

function searchLoop :: "server \<Rightarrow> string list \<Rightarrow> time \<Rightarrow> search_state \<Rightarrow> loop_exit" where
  "searchLoop srv binlogFiles targetTime st =
     (if left st \<le> right st then
        (let mid = left st + (right st - left st) div 2 in
         if mid < 0 \<or> int (length binlogFiles) \<le> mid then IndexPanic
         else
           (case lookupRange srv st (binlogFiles ! nat mid) of
              Inl st1 \<Rightarrow>
                if errorCount st1 > 3 then Ended st1
                else if mid > 0 then
                  searchLoop srv binlogFiles targetTime (st1\<lparr>right := mid - 1\<rparr>)
                else searchLoop srv binlogFiles targetTime (st1\<lparr>left := mid + 1\<rparr>)
            | Inr (st2, startTime, endTime) \<Rightarrow>
                if \<not> targetTime < startTime \<and> \<not> endTime < targetTime then
                  Matched st2 (binlogFiles ! nat mid)
                else if targetTime < startTime then
                  searchLoop srv binlogFiles targetTime (st2\<lparr>right := mid - 1\<rparr>)
                else searchLoop srv binlogFiles targetTime (st2\<lparr>left := mid + 1\<rparr>)))
      else Ended st)"
  by pat_completeness auto
termination
  by (relation "measure (\<lambda>(srv, binlogFiles, targetTime, st). nat (right st - left st + 1))")
     (auto simp: lookupRange_def split: option.splits sum.splits)

declare searchLoop.simps [simp del]

text \<open>
  The loop over \<open>validFiles\<close> after the search. Go leaves the order of a \<open>range\<close> over
  a map open: the keys are visited in the order of an arbitrary ranking \<open>rank\<close>. A key
  missing from \<open>timeRanges\<close> reads as the zero value.
\<close>

fun closestLoop ::
  "(string \<rightharpoonup> (time \<times> time)) \<Rightarrow> time \<Rightarrow> string list \<Rightarrow> string \<times> time \<Rightarrow> string \<times> time" where
  "closestLoop ranges targetTime [] (closestFile, closestEnd) = (closestFile, closestEnd)"
| "closestLoop ranges targetTime (file # files) (closestFile, closestEnd) =
     (let (startTime, endTime) =
            (case ranges file of Some r \<Rightarrow> r | None \<Rightarrow> (zeroTime, zeroTime))
      in if \<not> targetTime < endTime then
           (if closestFile = '''' \<or> closestEnd < endTime then
              closestLoop ranges targetTime files (file, endTime)
            else closestLoop ranges targetTime files (closestFile, closestEnd))
         else closestLoop ranges targetTime files (closestFile, closestEnd))"

definition fallback ::
  "(string \<Rightarrow> nat) \<Rightarrow> string list \<Rightarrow> time \<Rightarrow> search_state \<Rightarrow> string \<times> bool" where
  "fallback rank binlogFiles targetTime st =
     (let closestFile =
            (if length (validFiles st) > 0 then
               fst (closestLoop (timeRanges st) targetTime
                      (sort_key rank (validFiles st)) ('''', zeroTime))
             else '''')
      in if closestFile \<noteq> '''' then (closestFile, False)
         else if length binlogFiles > 0 then (binlogFiles ! 0, False)
         else ('''', False))"

text \<open>
  The whole function with the extractions it made; \<open>None\<close> is a run that panics.
\<close>

definition searchRun ::
  "server \<Rightarrow> (string \<Rightarrow> nat) \<Rightarrow> string list \<Rightarrow> time \<Rightarrow>
     (string \<times> bool) option \<times> (string \<times> bool) list" where
  "searchRun srv rank binlogFiles targetTime =
     (if length binlogFiles = 0 then (Some ('''', False), [])
      else if length binlogFiles = 1 then
        (case GetTimeRangeForBinlog (srv 0 (binlogFiles ! 0)) (binlogFiles ! 0) of
           Inl err \<Rightarrow> (Some (binlogFiles ! 0, False), [(binlogFiles ! 0, False)])
         | Inr (startTime, endTime) \<Rightarrow>
             if \<not> targetTime < startTime \<and> \<not> endTime < targetTime then
               (Some (binlogFiles ! 0, True), [(binlogFiles ! 0, True)])
             else (Some (binlogFiles ! 0, False), [(binlogFiles ! 0, True)]))
      else
        (case searchLoop srv binlogFiles targetTime (initState (length binlogFiles)) of
           Matched st file \<Rightarrow> (Some (file, True), syncs st)
         | Ended st \<Rightarrow> (Some (fallback rank binlogFiles targetTime st), syncs st)
         | IndexPanic \<Rightarrow> (None, [])))"

definition BinarySearchBinlogs ::
  "server \<Rightarrow> (string \<Rightarrow> nat) \<Rightarrow> string list \<Rightarrow> time \<Rightarrow> (string \<times> bool) option" where
  "BinarySearchBinlogs srv rank binlogFiles targetTime =
     fst (searchRun srv rank binlogFiles targetTime)"

definition extractions ::
  "server \<Rightarrow> (string \<Rightarrow> nat) \<Rightarrow> string list \<Rightarrow> time \<Rightarrow> (string \<times> bool) list" where
  "extractions srv rank binlogFiles targetTime =
     snd (searchRun srv rank binlogFiles targetTime)"

section \<open>Notions used to state the properties\<close>

text \<open>The positive header timestamps a streamer delivers, in stream order.\<close>

fun timestamps :: "poll list \<Rightarrow> 32 word list" where
  "timestamps [] = []"
| "timestamps (GotEvent ev # ps) =
     (if Timestamp ev > 0 then Timestamp ev # timestamps ps else timestamps ps)"
| "timestamps (CtxDone # ps) = timestamps ps"
| "timestamps (GetEventError # ps) = timestamps ps"

text \<open>Whether a poll of the streamer returned an event.\<close>

definition gotEvent :: "poll \<Rightarrow> bool" where
  "gotEvent p = (case p of GotEvent ev \<Rightarrow> True | CtxDone \<Rightarrow> False | GetEventError \<Rightarrow> False)"

text \<open>
  Lists of names are compared as \<open>sort.Strings\<close> compares them, byte by byte with a
  proper prefix first: \<open>sorted binlogFiles\<close> is a list in name order.

  A list of per-segment ranges is increasing when every range has its start at or before
  its end and every range ends before each later one starts. \<open>rangesOf srv binlogFiles rs\<close>
  says that \<open>rs\<close> lists the ranges of the segments: an extraction of the \<open>j\<close>-th
  file that succeeds returns \<open>rs ! j\<close>.
\<close>

definition rangesIncreasing :: "(time \<times> time) list \<Rightarrow> bool" where
  "rangesIncreasing rs \<longleftrightarrow>
     (\<forall>r \<in> set rs. fst r \<le> snd r) \<and> sorted_wrt (\<lambda>r r'. snd r < fst r') rs"

definition rangesOf :: "server \<Rightarrow> string list \<Rightarrow> (time \<times> time) list \<Rightarrow> bool" where
  "rangesOf srv binlogFiles rs \<longleftrightarrow>
     length rs = length binlogFiles \<and>
     (\<forall>k r. \<forall>j < length binlogFiles.
        GetTimeRangeForBinlog (srv k (binlogFiles ! j)) (binlogFiles ! j) = Inr r \<longrightarrow>
        r = rs ! j)"


text \<open>The end of a file's range as the loop over \<open>validFiles\<close> reads it.\<close>

definition endOf :: "(string \<rightharpoonup> (time \<times> time)) \<Rightarrow> string \<Rightarrow> time" where
  "endOf ranges f = snd (case ranges f of Some r \<Rightarrow> r | None \<Rightarrow> (zeroTime, zeroTime))"

text \<open>
  Invariants of the search loop. \<open>cacheInv\<close>: \<open>validFiles\<close> and \<open>timeRanges\<close> hold
  the same names, these are the names extracted with success, every extraction was of a
  listed file, and \<open>errorCount\<close> counts the failed extractions. \<open>cacheKnown\<close>: every
  stored range was returned by an extraction. \<open>anyFailed\<close>: some extraction failed.
  \<open>unprobed\<close>: no name was extracted twice and no file between \<open>left\<close> and
  \<open>right\<close> was extracted. The predicates on \<open>loop_exit\<close> say how the loop is left.
\<close>

definition cacheInv :: "string list \<Rightarrow> search_state \<Rightarrow> bool" where
  "cacheInv binlogFiles st \<longleftrightarrow>
     set (validFiles st) = dom (timeRanges st) \<and>
     dom (timeRanges st) = {file. (file, True) \<in> set (syncs st)} \<and>
     fst ` set (syncs st) \<subseteq> set binlogFiles \<and>
     errorCount st = length (filter (\<lambda>x. \<not> snd x) (syncs st))"

definition cacheKnown :: "server \<Rightarrow> search_state \<Rightarrow> bool" where
  "cacheKnown srv st \<longleftrightarrow>
     (\<forall>g r. timeRanges st g = Some r \<longrightarrow> (\<exists>k. GetTimeRangeForBinlog (srv k g) g = Inr r))"

definition anyFailed :: "search_state \<Rightarrow> bool" where
  "anyFailed st \<longleftrightarrow> (\<exists>x \<in> set (syncs st). \<not> snd x)"

definition exitInv :: "string list \<Rightarrow> loop_exit \<Rightarrow> bool" where
  "exitInv binlogFiles x =
     (case x of
        Matched st file \<Rightarrow>
          cacheInv binlogFiles st \<and> file \<in> set binlogFiles \<and> errorCount st \<le> 3
      | Ended st \<Rightarrow>
          cacheInv binlogFiles st \<and>
          (errorCount st \<le> 3 \<or>
           errorCount st = 4 \<and> syncs st \<noteq> [] \<and> \<not> snd (last (syncs st)))
      | IndexPanic \<Rightarrow> False)"




definition exitMatched :: "string \<Rightarrow> loop_exit \<Rightarrow> bool" where
  "exitMatched f x =
     (case x of Matched st g \<Rightarrow> anyFailed st \<or> g = f
      | Ended st \<Rightarrow> anyFailed st
      | IndexPanic \<Rightarrow> False)"

definition pastInv :: "server \<Rightarrow> string list \<Rightarrow> (time \<times> time) list \<Rightarrow> search_state \<Rightarrow> bool" where
  "pastInv srv binlogFiles rs st \<longleftrightarrow>
     anyFailed st \<or>
     cacheInv binlogFiles st \<and> cacheKnown srv st \<and>
     right st = int (length binlogFiles) - 1 \<and>
     (left st \<le> right st \<or> timeRanges st (last binlogFiles) = Some (last rs))"

definition exitPast :: "server \<Rightarrow> string list \<Rightarrow> (time \<times> time) list \<Rightarrow> loop_exit \<Rightarrow> bool" where
  "exitPast srv binlogFiles rs x =
     (case x of
        Matched st g \<Rightarrow> anyFailed st
      | Ended st \<Rightarrow>
          anyFailed st \<or>
          cacheInv binlogFiles st \<and> cacheKnown srv st \<and>
          timeRanges st (last binlogFiles) = Some (last rs)
      | IndexPanic \<Rightarrow> False)"

text \<open>
  Servers for the concrete runs. \<open>events stamps\<close> streams generic events with the given
  header timestamps. \<open>scenario\<close> serves three segments \<open>seg1\<close> (100 to 200), \<open>seg2\<close>
  (201 to 300) and \<open>seg3\<close> (301 to 400), each after an event without a timestamp;
  \<open>unreachable\<close> fails every \<open>StartSync\<close>; \<open>unnamed\<close> serves a segment \<open>a\<close>
  (1 to 2) and a segment whose name is the empty string (3 to 4); \<open>degraded\<close> serves
  the segment \<open>f02\<close> (1 to 2) and fails every other \<open>StartSync\<close>.
\<close>

definition events :: "32 word list \<Rightarrow> sync" where
  "events stamps = Streamer (map (\<lambda>t. GotEvent \<lparr>Timestamp = t, Event = GenericEvent\<rparr>) stamps)"

definition scenario :: server where
  "scenario k f =
     (if f = ''seg1'' then events [0, 100, 200]
      else if f = ''seg2'' then events [0, 201, 300]
      else if f = ''seg3'' then events [0, 301, 400]
      else StartSyncError)"

definition unreachable :: server where
  "unreachable k f = StartSyncError"



section \<open>Concrete runs\<close>

lemmas eval_range =
  GetTimeRangeForBinlog_def firstTimestampLoop.simps lastTimestampLoop.simps
  firstEventAction_def checkTimestamp_def unix_def events_def

lemmas eval_search =
  searchRun_def BinarySearchBinlogs_def extractions_def searchLoop.simps initState_def
  lookupRange_def fallback_def Let_def

lemma scenario_ranges:
  "GetTimeRangeForBinlog (scenario k ''seg1'') ''seg1'' = Inr (100, 200)"
  "GetTimeRangeForBinlog (scenario k ''seg2'') ''seg2'' = Inr (201, 300)"
  "GetTimeRangeForBinlog (scenario k ''seg3'') ''seg3'' = Inr (301, 400)"
  by (simp_all add: scenario_def eval_range)


lemma unreachable_range: "GetTimeRangeForBinlog (unreachable k f) f = Inl StartSyncFailed"
  by (simp add: unreachable_def GetTimeRangeForBinlog_def)


lemma scenario_rangesOf:
  "rangesOf scenario [''seg1'', ''seg2'', ''seg3''] [(100, 200), (201, 300), (301, 400)]"
  by (auto simp: rangesOf_def scenario_ranges less_Suc_eq numeral_3_eq_3)

lemma scenario_increasing: "rangesIncreasing [(100, 200), (201, 300), (301, 400)]"
  by (simp add: rangesIncreasing_def)

lemma scenario_250:
  "searchRun scenario rank [''seg1'', ''seg2'', ''seg3''] 250 =
     (Some (''seg2'', True), [(''seg2'', True)])"
  by (simp add: eval_search scenario_ranges)

lemma scenario_500:
  "searchRun scenario (\<lambda>f. 0) [''seg1'', ''seg2'', ''seg3''] 500 =
     (Some (''seg3'', False), [(''seg2'', True), (''seg3'', True)])"
  by (simp add: eval_search scenario_ranges)




lemma unreachable_empty_name:
  "searchRun unreachable (\<lambda>f. 0) [''''] 150 = (Some ('''', False), [('''', False)])"
  by (simp add: eval_search unreachable_range)

section \<open>GetTimeRangeForBinlog\<close>

subsection \<open>The rotate branch of the first loop\<close>

text \<open>
  C10. The \<open>continue\<close> that should skip the first rotate event pointing at the
  segment itself never runs: whatever the iteration, the file name and the event, the
  body of the first loop does not take that branch.
\<close>

theorem rotate_continue_unreachable:
  "firstEventAction i binlogFile ev \<noteq> SkipRotate"
  by (simp add: firstEventAction_def checkTimestamp_def split: event_payload.split)

theorem rotate_continue_unreachable_witness:
  "firstEventAction 0 ''binlog.000001''
     \<lparr>Timestamp = 0, Event = RotateEvent ''binlog.000001''\<rparr> \<noteq> SkipRotate"
  by (rule rotate_continue_unreachable)

subsection \<open>The first loop\<close>

lemma firstEventAction_eq: "firstEventAction i binlogFile ev = checkTimestamp ev"
  by (simp add: firstEventAction_def split: event_payload.split)

lemma firstTimestampLoop_GotEvent:
  "i < 10 \<Longrightarrow> firstTimestampLoop i binlogFile (GotEvent ev # rest) =
     (if Timestamp ev > 0 then Inr (True, Timestamp ev, rest)
      else firstTimestampLoop (i + 1) binlogFile rest)"
  by (subst firstTimestampLoop.simps) (simp add: firstEventAction_eq checkTimestamp_def)

lemma firstTimestampLoop_limit:
  "\<not> i < 10 \<Longrightarrow> firstTimestampLoop i binlogFile ps = Inr (False, 0, ps)"
  by (subst firstTimestampLoop.simps) simp

lemma firstTimestampLoop_zero_prefix:
  "\<forall>e \<in> set evs. Timestamp e = 0 \<Longrightarrow> i + length evs \<le> 10 \<Longrightarrow>
   firstTimestampLoop i binlogFile (map GotEvent evs @ rest) =
   firstTimestampLoop (i + length evs) binlogFile rest"
proof (induction evs arbitrary: i)
  case Nil
  then show ?case by simp
next
  case (Cons e evs)
  then have "i < 10" and "Timestamp e = 0" by simp_all
  then have "firstTimestampLoop i binlogFile (map GotEvent (e # evs) @ rest) =
             firstTimestampLoop (i + 1) binlogFile (map GotEvent evs @ rest)"
    by (simp add: firstTimestampLoop_GotEvent)
  also have "\<dots> = firstTimestampLoop (i + 1 + length evs) binlogFile rest"
    using Cons.prems by (intro Cons.IH) simp_all
  finally show ?case by simp
qed

lemma firstTimestampLoop_found:
  "firstTimestampLoop i binlogFile ps = Inr (True, ts, rest) \<Longrightarrow>
   timestamps ps = ts # timestamps rest"
proof (induction i binlogFile ps rule: firstTimestampLoop.induct)
  case (1 i binlogFile ps)
  show ?case
  proof (cases "i < 10")
    case False
    with "1.prems" show ?thesis by (simp add: firstTimestampLoop_limit)
  next
    case True
    show ?thesis
    proof (cases ps)
      case Nil
      with True "1.prems" show ?thesis by (subst (asm) firstTimestampLoop.simps) simp
    next
      case (Cons p rest')
      show ?thesis
      proof (cases p)
        case CtxDone
        with True Cons "1.prems" show ?thesis by (subst (asm) firstTimestampLoop.simps) simp
      next
        case GetEventError
        with True Cons "1.prems" show ?thesis by (subst (asm) firstTimestampLoop.simps) simp
      next
        case (GotEvent ev)
        show ?thesis
        proof (cases "Timestamp ev > 0")
          case pos: True
          with True Cons GotEvent "1.prems" show ?thesis
            by (simp add: firstTimestampLoop_GotEvent)
        next
          case zero: False
          then have act: "firstEventAction i binlogFile ev = NoTimestamp"
            by (simp add: firstEventAction_eq checkTimestamp_def)
          from zero True Cons GotEvent "1.prems"
          have "firstTimestampLoop (i + 1) binlogFile rest' = Inr (True, ts, rest)"
            by (simp add: firstTimestampLoop_GotEvent)
          with "1.IH"(2) [OF True Cons GotEvent act]
          have "timestamps rest' = ts # timestamps rest" by simp
          with zero Cons GotEvent show ?thesis by simp
        qed
      qed
    qed
  qed
qed

lemma firstTimestampLoop_split:
  "firstTimestampLoop i binlogFile ps = Inr (True, ts, rest) \<Longrightarrow>
   \<exists>zs ev. ps = map GotEvent zs @ GotEvent ev # rest \<and> i + length zs < 10 \<and>
     (\<forall>z \<in> set zs. Timestamp z = 0) \<and> 0 < Timestamp ev \<and> ts = Timestamp ev"
proof (induction i binlogFile ps rule: firstTimestampLoop.induct)
  case (1 i binlogFile ps)
  show ?case
  proof (cases "i < 10")
    case False
    with "1.prems" show ?thesis by (simp add: firstTimestampLoop_limit)
  next
    case True
    show ?thesis
    proof (cases ps)
      case Nil
      with True "1.prems" show ?thesis by (subst (asm) firstTimestampLoop.simps) simp
    next
      case (Cons p rest')
      show ?thesis
      proof (cases p)
        case CtxDone
        with True Cons "1.prems" show ?thesis by (subst (asm) firstTimestampLoop.simps) simp
      next
        case GetEventError
        with True Cons "1.prems" show ?thesis by (subst (asm) firstTimestampLoop.simps) simp
      next
        case (GotEvent ev)
        show ?thesis
        proof (cases "Timestamp ev > 0")
          case pos: True
          with True Cons GotEvent "1.prems" have "ts = Timestamp ev" "rest = rest'"
            by (simp_all add: firstTimestampLoop_GotEvent)
          with pos True Cons GotEvent show ?thesis
            by (intro exI [of _ "[]"] exI [of _ ev]) simp
        next
          case zero: False
          then have act: "firstEventAction i binlogFile ev = NoTimestamp"
            by (simp add: firstEventAction_eq checkTimestamp_def)
          from zero True Cons GotEvent "1.prems"
          have "firstTimestampLoop (i + 1) binlogFile rest' = Inr (True, ts, rest)"
            by (simp add: firstTimestampLoop_GotEvent)
          from "1.IH"(2) [OF True Cons GotEvent act this]
          obtain zs ev' where
            r: "rest' = map GotEvent zs @ GotEvent ev' # rest" "i + 1 + length zs < 10"
              "\<forall>z \<in> set zs. Timestamp z = 0" "0 < Timestamp ev'" "ts = Timestamp ev'"
            by blast
          moreover from zero have "Timestamp ev = 0" by (simp add: word_gt_0)
          ultimately show ?thesis using Cons GotEvent
            by (intro exI [of _ "ev # zs"] exI [of _ ev']) simp
        qed
      qed
    qed
  qed
qed

text \<open>
  C9. When the first ten reads return events and none of them has a positive timestamp,
  the function fails with \<open>NoTimestampFound\<close>; when fewer than ten events without a
  timestamp are followed by one with a positive timestamp, the function returns a range
  that starts at that timestamp.
\<close>

theorem first_phase_timestamp_bound:
  assumes zero: "\<forall>e \<in> set evs. Timestamp e = 0"
  shows "(length evs = 10 \<longrightarrow>
            GetTimeRangeForBinlog (Streamer (map GotEvent evs @ rest)) binlogFile
              = Inl NoTimestampFound) \<and>
         (length evs < 10 \<and> 0 < Timestamp ev \<longrightarrow>
            (\<exists>endTime.
               GetTimeRangeForBinlog (Streamer (map GotEvent evs @ GotEvent ev # rest)) binlogFile
                 = Inr (unix (Timestamp ev), endTime)))"
proof (intro conjI impI)
  assume len: "length evs = 10"
  with zero have "firstTimestampLoop 0 binlogFile (map GotEvent evs @ rest) =
        firstTimestampLoop 10 binlogFile rest"
    using firstTimestampLoop_zero_prefix [of evs 0 binlogFile rest] by simp
  then show "GetTimeRangeForBinlog (Streamer (map GotEvent evs @ rest)) binlogFile
              = Inl NoTimestampFound"
    by (simp add: GetTimeRangeForBinlog_def firstTimestampLoop_limit)
next
  assume "length evs < 10 \<and> 0 < Timestamp ev"
  then have len: "length evs < 10" and pos: "0 < Timestamp ev" by simp_all
  from zero len
  have "firstTimestampLoop 0 binlogFile (map GotEvent evs @ GotEvent ev # rest) =
        firstTimestampLoop (length evs) binlogFile (GotEvent ev # rest)"
    using firstTimestampLoop_zero_prefix [of evs 0 binlogFile "GotEvent ev # rest"] by simp
  also from len pos have "\<dots> = Inr (True, Timestamp ev, rest)"
    by (simp add: firstTimestampLoop_GotEvent)
  finally show "\<exists>endTime.
               GetTimeRangeForBinlog (Streamer (map GotEvent evs @ GotEvent ev # rest)) binlogFile
                 = Inr (unix (Timestamp ev), endTime)"
    by (simp add: GetTimeRangeForBinlog_def)
qed

theorem first_phase_timestamp_bound_witness:
  "GetTimeRangeForBinlog (events [0, 0, 0, 0, 0, 0, 0, 0, 0, 0, 7]) ''binlog.000001''
     = Inl NoTimestampFound \<and>
   (\<exists>endTime. GetTimeRangeForBinlog (events [0, 0, 100, 200]) ''binlog.000001''
     = Inr (100, endTime))"
proof -
  let ?z = "\<lparr>Timestamp = 0 :: 32 word, Event = GenericEvent\<rparr>"
  have z10: "\<forall>e \<in> set [?z, ?z, ?z, ?z, ?z, ?z, ?z, ?z, ?z, ?z]. Timestamp e = 0"
    and z2: "\<forall>e \<in> set [?z, ?z]. Timestamp e = 0" by simp_all
  from first_phase_timestamp_bound
    [OF z10, where rest = "[GotEvent \<lparr>Timestamp = 7, Event = GenericEvent\<rparr>]"
       and binlogFile = "''binlog.000001''"]
  have "GetTimeRangeForBinlog (events [0, 0, 0, 0, 0, 0, 0, 0, 0, 0, 7]) ''binlog.000001''
     = Inl NoTimestampFound"
    by (simp add: events_def)
  moreover
  from first_phase_timestamp_bound
    [OF z2, where ev = "\<lparr>Timestamp = 100, Event = GenericEvent\<rparr>"
       and rest = "[GotEvent \<lparr>Timestamp = 200, Event = GenericEvent\<rparr>]"
       and binlogFile = "''binlog.000001''"]
  have "\<exists>endTime. GetTimeRangeForBinlog (events [0, 0, 100, 200]) ''binlog.000001''
     = Inr (100, endTime)"
    by (simp add: events_def unix_def)
  ultimately show ?thesis ..
qed

subsection \<open>The start and the end of the range\<close>

lemma lastTimestampLoop_range:
  "lastTimestampLoop i ps t \<in> insert t (set (timestamps ps))"
proof (induction i ps t rule: lastTimestampLoop.induct)
  case (1 i ps t)
  show ?case
  proof (cases "i < 1000")
    case False
    then show ?thesis by (subst lastTimestampLoop.simps) simp
  next
    case True
    show ?thesis
    proof (cases ps)
      case Nil
      then show ?thesis by (subst lastTimestampLoop.simps) simp
    next
      case (Cons p rest)
      show ?thesis
      proof (cases p)
        case CtxDone
        with Cons show ?thesis by (subst lastTimestampLoop.simps) simp
      next
        case GetEventError
        with Cons show ?thesis by (subst lastTimestampLoop.simps) simp
      next
        case (GotEvent ev)
        show ?thesis
        proof (cases "Timestamp ev > 0")
          case pos: True
          from "1.IH"(1) [OF True Cons GotEvent pos]
          have "lastTimestampLoop (i + 1) rest (Timestamp ev)
                  \<in> insert (Timestamp ev) (set (timestamps rest))" .
          with True Cons GotEvent pos show ?thesis
            by (subst lastTimestampLoop.simps) auto
        next
          case zero: False
          from "1.IH"(2) [OF True Cons GotEvent zero]
          have "lastTimestampLoop (i + 1) rest t \<in> insert t (set (timestamps rest))" .
          with True Cons GotEvent zero show ?thesis
            by (subst lastTimestampLoop.simps) auto
        qed
      qed
    qed
  qed
qed

lemma lastTimestampLoop_last:
  "lastTimestampLoop i ps t = last (t # timestamps (take (1000 - i) (takeWhile gotEvent ps)))"
proof (induction i ps t rule: lastTimestampLoop.induct)
  case (1 i ps t)
  show ?case
  proof (cases "i < 1000")
    case False
    then show ?thesis by (subst lastTimestampLoop.simps) simp
  next
    case True
    then have step: "1000 - i = Suc (1000 - (i + 1))" by simp
    show ?thesis
    proof (cases ps)
      case Nil
      then show ?thesis by (subst lastTimestampLoop.simps) simp
    next
      case (Cons p rest)
      show ?thesis
      proof (cases p)
        case CtxDone
        with Cons show ?thesis by (subst lastTimestampLoop.simps) (simp add: gotEvent_def)
      next
        case GetEventError
        with Cons show ?thesis by (subst lastTimestampLoop.simps) (simp add: gotEvent_def)
      next
        case (GotEvent ev)
        have tk: "take (1000 - i) (takeWhile gotEvent ps) =
                  GotEvent ev # take (1000 - (i + 1)) (takeWhile gotEvent rest)"
          using Cons GotEvent by (subst step) (simp add: gotEvent_def)
        show ?thesis
        proof (cases "Timestamp ev > 0")
          case pos: True
          have "lastTimestampLoop i ps t = lastTimestampLoop (i + 1) rest (Timestamp ev)"
            using True Cons GotEvent pos by (subst lastTimestampLoop.simps) simp
          also have "\<dots> = last (Timestamp ev #
              timestamps (take (1000 - (i + 1)) (takeWhile gotEvent rest)))"
            by (rule "1.IH"(1) [OF True Cons GotEvent pos])
          also have "\<dots> = last (t # timestamps (take (1000 - i) (takeWhile gotEvent ps)))"
            unfolding tk using pos by simp
          finally show ?thesis .
        next
          case zero: False
          have "lastTimestampLoop i ps t = lastTimestampLoop (i + 1) rest t"
            using True Cons GotEvent zero by (subst lastTimestampLoop.simps) simp
          also have "\<dots> = last (t # timestamps (take (1000 - (i + 1)) (takeWhile gotEvent rest)))"
            by (rule "1.IH"(2) [OF True Cons GotEvent zero])
          also have "\<dots> = last (t # timestamps (take (1000 - i) (takeWhile gotEvent ps)))"
            unfolding tk using zero by simp
          finally show ?thesis .
        qed
      qed
    qed
  qed
qed

text \<open>
  C8. A range that \<open>GetTimeRangeForBinlog\<close> returns starts at the first positive
  timestamp of the stream, which one of the first ten events carries, and ends at the
  last positive timestamp among that event and the events the second loop reads: the
  events that follow, up to the first read that fails or meets the deadline and up to
  1000 of them. So the start is at or before the end when the positive timestamps of the
  stream do not decrease.
\<close>

theorem range_is_first_and_last_timestamp:
  assumes ok: "GetTimeRangeForBinlog (Streamer ps) binlogFile = Inr (startTime, endTime)"
  shows "\<exists>zs ev rest.
           ps = map GotEvent zs @ GotEvent ev # rest \<and> length zs < 10 \<and>
           (\<forall>z \<in> set zs. Timestamp z = 0) \<and> 0 < Timestamp ev \<and>
           startTime = unix (Timestamp ev) \<and>
           endTime = unix (last (Timestamp ev # timestamps (take 1000 (takeWhile gotEvent rest)))) \<and>
           (sorted (timestamps ps) \<longrightarrow> startTime \<le> endTime)"
proof -
  from ok obtain ts rest where
    first: "firstTimestampLoop 0 binlogFile ps = Inr (True, ts, rest)"
    and s: "startTime = unix ts"
    and e: "endTime = unix (lastTimestampLoop 0 rest ts)"
    by (auto simp: GetTimeRangeForBinlog_def split: sum.splits if_splits)
  from firstTimestampLoop_split [OF first] obtain zs ev where
    ps: "ps = map GotEvent zs @ GotEvent ev # rest" and len: "length zs < 10"
    and z: "\<forall>z \<in> set zs. Timestamp z = 0" and pos: "0 < Timestamp ev" and ts: "ts = Timestamp ev"
    by auto
  have e': "endTime = unix (last (Timestamp ev # timestamps (take 1000 (takeWhile gotEvent rest))))"
    using e ts by (simp add: lastTimestampLoop_last)
  have "startTime \<le> endTime" if mono: "sorted (timestamps ps)"
  proof -
    from first have "timestamps ps = ts # timestamps rest"
      by (rule firstTimestampLoop_found)
    with mono have "\<forall>x \<in> set (timestamps rest). ts \<le> x" by simp
    with lastTimestampLoop_range [of 0 rest ts]
    have "ts \<le> lastTimestampLoop 0 rest ts" by auto
    with s e show ?thesis by (simp add: unix_def word_le_def)
  qed
  with ps len z pos s ts e' show ?thesis by blast
qed

theorem range_is_first_and_last_timestamp_witness:
  "GetTimeRangeForBinlog (events [0, 100, 0, 200, 150]) ''binlog.000001'' = Inr (100, 150) \<and>
   GetTimeRangeForBinlog (events [0, 100, 200]) ''binlog.000001'' = Inr (100, 200) \<and>
   sorted (timestamps [GotEvent \<lparr>Timestamp = 0, Event = GenericEvent\<rparr>,
                       GotEvent \<lparr>Timestamp = 100, Event = GenericEvent\<rparr>,
                       GotEvent \<lparr>Timestamp = 200, Event = GenericEvent\<rparr>]) \<and>
   (100 :: time) \<le> 200"
proof -
  have run: "GetTimeRangeForBinlog (events [0, 100, 200]) ''binlog.000001'' = Inr (100, 200)"
    and run': "GetTimeRangeForBinlog (events [0, 100, 0, 200, 150]) ''binlog.000001'' = Inr (100, 150)"
    by (simp_all add: eval_range)
  from range_is_first_and_last_timestamp [OF run [unfolded events_def]]
  have "sorted (timestamps [GotEvent \<lparr>Timestamp = 0, Event = GenericEvent\<rparr>,
                       GotEvent \<lparr>Timestamp = 100, Event = GenericEvent\<rparr>,
                       GotEvent \<lparr>Timestamp = 200, Event = GenericEvent\<rparr>]) \<longrightarrow> (100 :: time) \<le> 200"
    by (auto simp: events_def)
  moreover have "sorted (timestamps [GotEvent \<lparr>Timestamp = 0, Event = GenericEvent\<rparr>,
                       GotEvent \<lparr>Timestamp = 100, Event = GenericEvent\<rparr>,
                       GotEvent \<lparr>Timestamp = 200, Event = GenericEvent\<rparr>])" by simp
  ultimately show ?thesis using run run' by simp
qed

text \<open>
  A stream whose second timestamp is earlier than its first is answered with a range
  that starts after it ends.
\<close>

theorem range_start_after_end_counterexample:
  "GetTimeRangeForBinlog
     (Streamer [GotEvent \<lparr>Timestamp = 200, Event = GenericEvent\<rparr>,
                GotEvent \<lparr>Timestamp = 100, Event = GenericEvent\<rparr>]) ''binlog.000001''
     = Inr (200, 100) \<and> \<not> (200 :: time) \<le> 100"
  by (simp add: GetTimeRangeForBinlog_def firstTimestampLoop.simps lastTimestampLoop.simps
        firstEventAction_def checkTimestamp_def unix_def)

section \<open>The search loop\<close>

lemma lookupRange_Inl:
  assumes "lookupRange srv st file = Inl st1"
  shows "timeRanges st file = None"
    and "\<exists>err. GetTimeRangeForBinlog (srv (length (syncs st)) file) file = Inl err"
    and "st1 = st\<lparr>errorCount := errorCount st + 1, syncs := syncs st @ [(file, False)]\<rparr>"
  using assms by (auto simp: lookupRange_def split: option.splits sum.splits)

lemma lookupRange_Inr:
  assumes "lookupRange srv st file = Inr (st2, a, b)"
  obtains (cached) "timeRanges st file = Some (a, b)" and "st2 = st"
  | (extracted) "timeRanges st file = None"
      and "GetTimeRangeForBinlog (srv (length (syncs st)) file) file = Inr (a, b)"
      and "st2 = st\<lparr>validFiles := List.insert file (validFiles st),
                      timeRanges := (timeRanges st)(file \<mapsto> (a, b)),
                      syncs := syncs st @ [(file, True)]\<rparr>"
  using assms by (auto simp: lookupRange_def split: option.splits sum.splits)

lemma lookupRange_bounds:
  "lookupRange srv st file = Inl st1 \<Longrightarrow> left st1 = left st \<and> right st1 = right st"
  "lookupRange srv st file = Inr (st2, a, b) \<Longrightarrow> left st2 = left st \<and> right st2 = right st"
  by (auto simp: lookupRange_def split: option.splits sum.splits)



text \<open>
  The proof rule of the loop: an invariant \<open>I\<close> that holds initially, with the bounds
  inside the list, and is kept by every iteration that goes on, gives \<open>Q\<close> of the way
  the loop is left, when each way of leaving establishes \<open>Q\<close>. The index is never out
  of range.
\<close>

lemma searchLoop_rule:
  assumes inv: "I st" and lo: "0 \<le> left st" and hi: "right st < int (length binlogFiles)"
    and failed: "\<And>st mid st1.
        \<lbrakk>I st; 0 \<le> left st; right st < int (length binlogFiles); left st \<le> mid; mid \<le> right st;
         mid = left st + (right st - left st) div 2;
         lookupRange srv st (binlogFiles ! nat mid) = Inl st1\<rbrakk>
        \<Longrightarrow> if errorCount st1 > 3 then Q (Ended st1)
            else if mid > 0 then I (st1\<lparr>right := mid - 1\<rparr>)
            else I (st1\<lparr>left := mid + 1\<rparr>)"
    and probed: "\<And>st mid st2 startTime endTime.
        \<lbrakk>I st; 0 \<le> left st; right st < int (length binlogFiles); left st \<le> mid; mid \<le> right st;
         mid = left st + (right st - left st) div 2;
         lookupRange srv st (binlogFiles ! nat mid) = Inr (st2, startTime, endTime)\<rbrakk>
        \<Longrightarrow> if \<not> targetTime < startTime \<and> \<not> endTime < targetTime
              then Q (Matched st2 (binlogFiles ! nat mid))
            else if targetTime < startTime then I (st2\<lparr>right := mid - 1\<rparr>)
            else I (st2\<lparr>left := mid + 1\<rparr>)"
    and finished: "\<And>st. \<lbrakk>I st; \<not> left st \<le> right st\<rbrakk> \<Longrightarrow> Q (Ended st)"
  shows "Q (searchLoop srv binlogFiles targetTime st)"
  using inv lo hi
proof (induction "nat (right st - left st + 1)" arbitrary: st rule: less_induct)
  case less
  show ?case
  proof (cases "left st \<le> right st")
    case False
    with less.prems finished show ?thesis by (subst searchLoop.simps) simp
  next
    case True
    define mid where "mid = left st + (right st - left st) div 2"
    from True have m: "left st \<le> mid" "mid \<le> right st"
      unfolding mid_def by simp_all
    with less.prems have range: "\<not> (mid < 0 \<or> int (length binlogFiles) \<le> mid)" by simp
    show ?thesis
    proof (cases "lookupRange srv st (binlogFiles ! nat mid)")
      case (Inl st1)
      note step = failed [OF less.prems(1-3) m mid_def Inl]
      from Inl have b: "left st1 = left st" "right st1 = right st"
        by (simp_all add: lookupRange_bounds)
      have unf: "searchLoop srv binlogFiles targetTime st =
          (if errorCount st1 > 3 then Ended st1
           else if mid > 0 then searchLoop srv binlogFiles targetTime (st1\<lparr>right := mid - 1\<rparr>)
           else searchLoop srv binlogFiles targetTime (st1\<lparr>left := mid + 1\<rparr>))"
        using True range Inl by (subst searchLoop.simps) (simp add: mid_def [symmetric] Let_def)
      show ?thesis
      proof (cases "errorCount st1 > 3")
        case True
        with step unf show ?thesis by simp
      next
        case few: False
        show ?thesis
        proof (cases "mid > 0")
          case True
          with few step have "I (st1\<lparr>right := mid - 1\<rparr>)" by simp
          moreover have "nat (right (st1\<lparr>right := mid - 1\<rparr>) - left (st1\<lparr>right := mid - 1\<rparr>) + 1)
                < nat (right st - left st + 1)"
            using m b by simp
          ultimately have "Q (searchLoop srv binlogFiles targetTime (st1\<lparr>right := mid - 1\<rparr>))"
            using less.prems m b by (intro less.hyps) simp_all
          with few True unf show ?thesis by simp
        next
          case False
          with few step have "I (st1\<lparr>left := mid + 1\<rparr>)" by simp
          moreover have "nat (right (st1\<lparr>left := mid + 1\<rparr>) - left (st1\<lparr>left := mid + 1\<rparr>) + 1)
                < nat (right st - left st + 1)"
            using m b by simp
          ultimately have "Q (searchLoop srv binlogFiles targetTime (st1\<lparr>left := mid + 1\<rparr>))"
            using less.prems m b by (intro less.hyps) simp_all
          with few False unf show ?thesis by simp
        qed
      qed
    next
      case (Inr r)
      then obtain st2 startTime endTime where
        look: "lookupRange srv st (binlogFiles ! nat mid) = Inr (st2, startTime, endTime)"
        by (cases r) auto
      note step = probed [OF less.prems(1-3) m mid_def look]
      from look have b: "left st2 = left st" "right st2 = right st"
        by (simp_all add: lookupRange_bounds)
      have unf: "searchLoop srv binlogFiles targetTime st =
          (if \<not> targetTime < startTime \<and> \<not> endTime < targetTime
             then Matched st2 (binlogFiles ! nat mid)
           else if targetTime < startTime
             then searchLoop srv binlogFiles targetTime (st2\<lparr>right := mid - 1\<rparr>)
           else searchLoop srv binlogFiles targetTime (st2\<lparr>left := mid + 1\<rparr>))"
        using True range look by (subst searchLoop.simps) (simp add: mid_def [symmetric] Let_def)
      show ?thesis
      proof (cases "\<not> targetTime < startTime \<and> \<not> endTime < targetTime")
        case True
        with step unf show ?thesis by simp
      next
        case out: False
        show ?thesis
        proof (cases "targetTime < startTime")
          case True
          with out step have "I (st2\<lparr>right := mid - 1\<rparr>)" by simp
          moreover have "nat (right (st2\<lparr>right := mid - 1\<rparr>) - left (st2\<lparr>right := mid - 1\<rparr>) + 1)
                < nat (right st - left st + 1)"
            using m b by simp
          ultimately have "Q (searchLoop srv binlogFiles targetTime (st2\<lparr>right := mid - 1\<rparr>))"
            using less.prems m b by (intro less.hyps) simp_all
          with out True unf show ?thesis by simp
        next
          case False
          with out step have "I (st2\<lparr>left := mid + 1\<rparr>)" by simp
          moreover have "nat (right (st2\<lparr>left := mid + 1\<rparr>) - left (st2\<lparr>left := mid + 1\<rparr>) + 1)
                < nat (right st - left st + 1)"
            using m b by simp
          ultimately have "Q (searchLoop srv binlogFiles targetTime (st2\<lparr>left := mid + 1\<rparr>))"
            using less.prems m b by (intro less.hyps) simp_all
          with out False unf show ?thesis by simp
        qed
      qed
    qed
  qed
qed

subsection \<open>The cache and the error count\<close>

lemma cacheInv_init: "cacheInv binlogFiles (initState n)"
  by (simp add: cacheInv_def initState_def)

lemma cacheInv_bounds [simp]:
  "cacheInv binlogFiles (st\<lparr>left := l\<rparr>) = cacheInv binlogFiles st"
  "cacheInv binlogFiles (st\<lparr>right := r\<rparr>) = cacheInv binlogFiles st"
  by (simp_all add: cacheInv_def)

lemma cacheInv_lookup_Inl:
  assumes "cacheInv binlogFiles st" and "file \<in> set binlogFiles"
    and "lookupRange srv st file = Inl st1"
  shows "cacheInv binlogFiles st1"
    and "errorCount st1 = errorCount st + 1"
    and "syncs st1 = syncs st @ [(file, False)]"
  using assms(1,2) lookupRange_Inl [OF assms(3)]
  by (auto simp: cacheInv_def)

lemma cacheInv_lookup_Inr:
  assumes "cacheInv binlogFiles st" and "file \<in> set binlogFiles"
    and "lookupRange srv st file = Inr (st2, a, b)"
  shows "cacheInv binlogFiles st2"
    and "errorCount st2 = errorCount st"
    and "timeRanges st2 file = Some (a, b)"
  using assms(3)
proof (atomize (full), cases rule: lookupRange_Inr)
  case cached
  with assms(1) show "cacheInv binlogFiles st2 \<and> errorCount st2 = errorCount st \<and>
      timeRanges st2 file = Some (a, b)" by simp
next
  case extracted
  with assms(1,2) show "cacheInv binlogFiles st2 \<and> errorCount st2 = errorCount st \<and>
      timeRanges st2 file = Some (a, b)"
    by (auto simp: cacheInv_def)
qed

lemma cacheInv_valid:
  assumes "cacheInv binlogFiles st"
  shows "set (validFiles st) = dom (timeRanges st)" and "set (validFiles st) \<subseteq> set binlogFiles"
  using assms by (force simp: cacheInv_def)+

lemma searchLoop_exitInv:
  "exitInv binlogFiles
     (searchLoop srv binlogFiles targetTime (initState (length binlogFiles)))"
proof (rule searchLoop_rule
    [where I = "\<lambda>st. cacheInv binlogFiles st \<and> errorCount st \<le> 3"])
  show "cacheInv binlogFiles (initState (length binlogFiles)) \<and>
        errorCount (initState (length binlogFiles)) \<le> 3"
    by (simp add: cacheInv_init) (simp add: initState_def)
  show "0 \<le> left (initState (length binlogFiles))"
    and "right (initState (length binlogFiles)) < int (length binlogFiles)"
    by (simp_all add: initState_def)
next
  fix st mid st1
  assume I: "cacheInv binlogFiles st \<and> errorCount st \<le> 3"
    and b: "0 \<le> left st" "right st < int (length binlogFiles)" "left st \<le> mid" "mid \<le> right st"
    and look: "lookupRange srv st (binlogFiles ! nat mid) = Inl st1"
  from b have mem: "binlogFiles ! nat mid \<in> set binlogFiles" by simp
  from I have c: "cacheInv binlogFiles st" and e: "errorCount st \<le> 3" by simp_all
  note f = cacheInv_lookup_Inl [OF c mem look]
  show "if errorCount st1 > 3 then exitInv binlogFiles (Ended st1)
        else if mid > 0 then cacheInv binlogFiles (st1\<lparr>right := mid - 1\<rparr>) \<and>
                             errorCount (st1\<lparr>right := mid - 1\<rparr>) \<le> 3
        else cacheInv binlogFiles (st1\<lparr>left := mid + 1\<rparr>) \<and>
             errorCount (st1\<lparr>left := mid + 1\<rparr>) \<le> 3"
    using f e by (simp add: exitInv_def)
next
  fix st mid st2 startTime endTime
  assume I: "cacheInv binlogFiles st \<and> errorCount st \<le> 3"
    and b: "0 \<le> left st" "right st < int (length binlogFiles)" "left st \<le> mid" "mid \<le> right st"
    and look: "lookupRange srv st (binlogFiles ! nat mid) = Inr (st2, startTime, endTime)"
  from b have mem: "binlogFiles ! nat mid \<in> set binlogFiles" by simp
  from I have c: "cacheInv binlogFiles st" and e: "errorCount st \<le> 3" by simp_all
  note f = cacheInv_lookup_Inr [OF c mem look]
  show "if \<not> targetTime < startTime \<and> \<not> endTime < targetTime
          then exitInv binlogFiles (Matched st2 (binlogFiles ! nat mid))
        else if targetTime < startTime
          then cacheInv binlogFiles (st2\<lparr>right := mid - 1\<rparr>) \<and>
               errorCount (st2\<lparr>right := mid - 1\<rparr>) \<le> 3
        else cacheInv binlogFiles (st2\<lparr>left := mid + 1\<rparr>) \<and>
             errorCount (st2\<lparr>left := mid + 1\<rparr>) \<le> 3"
    using f e mem by (simp add: exitInv_def)
next
  fix st
  assume "cacheInv binlogFiles st \<and> errorCount st \<le> 3"
  then show "exitInv binlogFiles (Ended st)" by (simp add: exitInv_def)
qed

lemma closestLoop_fst_mem:
  "fst (closestLoop ranges targetTime files acc) \<in> insert (fst acc) (set files)"
proof (induction files arbitrary: acc)
  case Nil
  show ?case by (cases acc) simp
next
  case (Cons f fs)
  obtain cf ce where acc: "acc = (cf, ce)" by (cases acc)
  show ?case
    using Cons.IH [of "(f, snd (case ranges f of Some r \<Rightarrow> r | None \<Rightarrow> (zeroTime, zeroTime)))"]
      Cons.IH [of "(cf, ce)"]
    by (auto simp: acc split: prod.splits)
qed

lemma fallback_mem:
  assumes "cacheInv binlogFiles st" and "binlogFiles \<noteq> []"
  shows "fst (fallback rank binlogFiles targetTime st) \<in> set binlogFiles"
    and "snd (fallback rank binlogFiles targetTime st) = False"
    and "fst (fallback rank binlogFiles targetTime st) = binlogFiles ! 0 \<or>
         (fst (fallback rank binlogFiles targetTime st), True) \<in> set (syncs st)"
proof -
  let ?c = "fst (closestLoop (timeRanges st) targetTime
                      (sort_key rank (validFiles st)) ('''', zeroTime))"
  have "?c \<in> insert '''' (set (validFiles st))"
    using closestLoop_fst_mem [of "timeRanges st" targetTime "sort_key rank (validFiles st)"
        "('''', zeroTime)"] by simp
  with assms(1) have c: "?c = '''' \<or> (?c, True) \<in> set (syncs st)"
    by (auto simp: cacheInv_def)
  from assms(1) have sub: "\<And>file. (file, True) \<in> set (syncs st) \<Longrightarrow> file \<in> set binlogFiles"
    by (force simp: cacheInv_def)
  from assms(2) have hd: "binlogFiles ! 0 \<in> set binlogFiles" by (cases binlogFiles) simp_all
  show "snd (fallback rank binlogFiles targetTime st) = False"
    by (simp add: fallback_def Let_def)
  show "fst (fallback rank binlogFiles targetTime st) = binlogFiles ! 0 \<or>
         (fst (fallback rank binlogFiles targetTime st), True) \<in> set (syncs st)"
    using c assms(2) by (auto simp: fallback_def Let_def)
  then show "fst (fallback rank binlogFiles targetTime st) \<in> set binlogFiles"
    using sub hd by auto
qed

text \<open>
  C4. For a list of one segment the result is that segment; it is an exact match
  exactly when the extraction succeeds and the target lies within the range, bounds
  included, and it is not one when the extraction fails.
\<close>

theorem single_segment_search:
  "BinarySearchBinlogs srv rank [S] targetTime =
     (case GetTimeRangeForBinlog (srv 0 S) S of
        Inl err \<Rightarrow> Some (S, False)
      | Inr (startTime, endTime) \<Rightarrow> Some (S, startTime \<le> targetTime \<and> targetTime \<le> endTime))"
  by (auto simp: BinarySearchBinlogs_def searchRun_def split: sum.split)

theorem single_segment_search_witness:
  "BinarySearchBinlogs scenario (\<lambda>f. 0) [''seg1''] 150 = Some (''seg1'', True) \<and>
   BinarySearchBinlogs scenario (\<lambda>f. 0) [''seg1''] 250 = Some (''seg1'', False) \<and>
   BinarySearchBinlogs unreachable (\<lambda>f. 0) [''seg1''] 150 = Some (''seg1'', False)"
  using single_segment_search [of scenario "\<lambda>f. 0" "''seg1''" 150]
    single_segment_search [of scenario "\<lambda>f. 0" "''seg1''" 250]
    single_segment_search [of unreachable "\<lambda>f. 0" "''seg1''" 150]
  by (simp add: scenario_ranges unreachable_range)

text \<open>
  C5. The function always returns. For the empty list it returns the empty name and no
  exact match; for a list that is not empty the returned name is one of the list. So,
  when no listed name is the empty string, the empty name with no exact match is
  returned exactly for the empty list.
\<close>

theorem returned_segment_is_listed:
  "\<exists>f b. BinarySearchBinlogs srv rank binlogFiles targetTime = Some (f, b) \<and>
     (binlogFiles = [] \<longrightarrow> f = '''' \<and> \<not> b) \<and>
     (binlogFiles \<noteq> [] \<longrightarrow> f \<in> set binlogFiles) \<and>
     ('''' \<notin> set binlogFiles \<longrightarrow> (f = '''' \<and> \<not> b \<longleftrightarrow> binlogFiles = []))"
proof -
  consider "length binlogFiles = 0" | "length binlogFiles = 1" | "2 \<le> length binlogFiles"
    by linarith
  then show ?thesis
  proof cases
    case 1
    then show ?thesis by (auto simp: BinarySearchBinlogs_def searchRun_def)
  next
    case 2
    then obtain S where "binlogFiles = [S]" by (cases binlogFiles) auto
    then show ?thesis
      by (auto simp: BinarySearchBinlogs_def searchRun_def split: sum.split)
  next
    case 3
    then have ne: "binlogFiles \<noteq> []" by auto
    let ?x = "searchLoop srv binlogFiles targetTime (initState (length binlogFiles))"
    have inv: "exitInv binlogFiles ?x" by (rule searchLoop_exitInv)
    show ?thesis
    proof (cases ?x)
      case (Matched st f)
      with inv 3 show ?thesis
        by (auto simp: BinarySearchBinlogs_def searchRun_def exitInv_def)
    next
      case (Ended st)
      with inv have c: "cacheInv binlogFiles st" by (simp add: exitInv_def)
      obtain f b where fb: "fallback rank binlogFiles targetTime st = (f, b)"
        by (cases "fallback rank binlogFiles targetTime st")
      with fallback_mem(1) [OF c ne, of rank targetTime] have "f \<in> set binlogFiles" by simp
      with Ended 3 fb ne show ?thesis
        by (auto simp: BinarySearchBinlogs_def searchRun_def)
    next
      case IndexPanic
      with inv show ?thesis by (simp add: exitInv_def)
    qed
  qed
qed

theorem returned_segment_is_listed_witness:
  "BinarySearchBinlogs scenario (\<lambda>f. 0) [''seg1'', ''seg2'', ''seg3''] 250 = Some (''seg2'', True) \<and>
   ''seg2'' \<in> set [''seg1'', ''seg2'', ''seg3''] \<and>
   BinarySearchBinlogs scenario (\<lambda>f. 0) [] 250 = Some ('''', False)"
  using returned_segment_is_listed [of scenario "\<lambda>f. 0" "[''seg1'', ''seg2'', ''seg3'']" 250]
    returned_segment_is_listed [of scenario "\<lambda>f. 0" "[]" 250]
  by (simp add: BinarySearchBinlogs_def scenario_250) (simp add: searchRun_def)

text \<open>
  A list that holds the empty string as its one name, with the extraction failing, is
  answered with the empty name and no exact match although the list is not empty.
\<close>

theorem empty_name_returned_counterexample:
  "BinarySearchBinlogs unreachable (\<lambda>f. 0) [''''] 150 = Some ('''', False) \<and>
   [''''] \<noteq> ([] :: string list)"
  by (simp add: BinarySearchBinlogs_def unreachable_empty_name)

section \<open>The closest file before the target\<close>

lemma endOf_Some [simp]: "ranges f = Some (a, b) \<Longrightarrow> endOf ranges f = b"
  by (simp add: endOf_def)

lemma closestLoop_Cons:
  "closestLoop ranges targetTime (f # fs) (cf, ce) =
     (if \<not> targetTime < endOf ranges f \<and> (cf = '''' \<or> ce < endOf ranges f)
      then closestLoop ranges targetTime fs (f, endOf ranges f)
      else closestLoop ranges targetTime fs (cf, ce))"
  by (simp add: endOf_def split: prod.splits)



lemma closestLoop_last:
  assumes "\<forall>g \<in> set fs. endOf ranges g \<le> targetTime \<and> (g \<noteq> L \<longrightarrow> endOf ranges g < eL)"
    and "endOf ranges L = eL" and "L \<noteq> ''''"
    and "cf = '''' \<or> ce < eL \<or> cf = L \<and> ce = eL"
    and "L \<in> set fs \<or> cf = L \<and> ce = eL"
  shows "closestLoop ranges targetTime fs (cf, ce) = (L, eL)"
  using assms
proof (induction fs arbitrary: cf ce)
  case Nil
  then show ?case by simp
next
  case (Cons f fs)
  from Cons.prems(1)
  have tail: "\<forall>g \<in> set fs. endOf ranges g \<le> targetTime \<and> (g \<noteq> L \<longrightarrow> endOf ranges g < eL)"
    and f: "endOf ranges f \<le> targetTime" "f \<noteq> L \<longrightarrow> endOf ranges f < eL"
    by simp_all
  show ?case
  proof (cases "cf = L \<and> ce = eL")
    case True
    with f Cons.prems(2,3) have "\<not> (cf = '''' \<or> ce < endOf ranges f)"
      by (cases "f = L") auto
    then have "closestLoop ranges targetTime (f # fs) (cf, ce) =
               closestLoop ranges targetTime fs (cf, ce)"
      by (simp add: closestLoop_Cons del: closestLoop.simps)
    also from True have "\<dots> = (L, eL)"
      by (intro Cons.IH [OF tail Cons.prems(2,3)]) simp_all
    finally show ?thesis .
  next
    case notL: False
    with Cons.prems(4,5) have acc: "cf = '''' \<or> ce < eL" and mem: "L \<in> set (f # fs)"
      by auto
    show ?thesis
    proof (cases "f = L")
      case True
      with acc f Cons.prems(2)
      have "closestLoop ranges targetTime (f # fs) (cf, ce) =
            closestLoop ranges targetTime fs (L, eL)"
        by (auto simp: closestLoop_Cons simp del: closestLoop.simps)
      also have "\<dots> = (L, eL)"
        by (intro Cons.IH [OF tail Cons.prems(2,3)]) simp_all
      finally show ?thesis .
    next
      case False
      with mem have mem': "L \<in> set fs" by simp
      from False f have lt: "endOf ranges f < eL" by simp
      show ?thesis
      proof (cases "cf = '''' \<or> ce < endOf ranges f")
        case True
        with f have "closestLoop ranges targetTime (f # fs) (cf, ce) =
            closestLoop ranges targetTime fs (f, endOf ranges f)"
          by (simp add: closestLoop_Cons del: closestLoop.simps)
        also from lt mem' have "\<dots> = (L, eL)"
          by (intro Cons.IH [OF tail Cons.prems(2,3)]) simp_all
        finally show ?thesis .
      next
        case False
        then have "closestLoop ranges targetTime (f # fs) (cf, ce) =
            closestLoop ranges targetTime fs (cf, ce)"
          by (simp add: closestLoop_Cons del: closestLoop.simps)
        also from acc mem' have "\<dots> = (L, eL)"
          by (intro Cons.IH [OF tail Cons.prems(2,3)]) auto
        finally show ?thesis .
      qed
    qed
  qed
qed



subsection \<open>Failed extractions\<close>



section \<open>Extractions and the cache\<close>












section \<open>Segments with increasing ranges\<close>

lemma cacheKnown_bounds [simp]:
  "cacheKnown srv (st\<lparr>left := l\<rparr>) = cacheKnown srv st"
  "cacheKnown srv (st\<lparr>right := r\<rparr>) = cacheKnown srv st"
  by (simp_all add: cacheKnown_def)

lemma anyFailed_bounds [simp]:
  "anyFailed (st\<lparr>left := l\<rparr>) = anyFailed st"
  "anyFailed (st\<lparr>right := r\<rparr>) = anyFailed st"
  by (simp_all add: anyFailed_def)

lemma cacheKnown_init: "cacheKnown srv (initState n)"
  by (simp add: cacheKnown_def initState_def)

lemma cacheKnown_range:
  assumes "rangesOf srv binlogFiles rs" and "cacheKnown srv st"
    and "j < length binlogFiles" and "timeRanges st (binlogFiles ! j) = Some r"
  shows "r = rs ! j"
proof -
  from assms(2,4) obtain k where
    "GetTimeRangeForBinlog (srv k (binlogFiles ! j)) (binlogFiles ! j) = Inr r"
    unfolding cacheKnown_def by blast
  with assms(1,3) show ?thesis unfolding rangesOf_def by blast
qed

lemma lookup_anyFailed:
  "lookupRange srv st f = Inl st1 \<Longrightarrow> anyFailed st1"
  "lookupRange srv st f = Inr (st2, a, b) \<Longrightarrow> anyFailed st \<Longrightarrow> anyFailed st2"
  by (auto simp: lookupRange_def anyFailed_def split: option.splits sum.splits)

lemma lookup_known_Inr:
  assumes ro: "rangesOf srv binlogFiles rs" and ck: "cacheKnown srv st"
    and j: "j < length binlogFiles"
    and look: "lookupRange srv st (binlogFiles ! j) = Inr (st2, a, b)"
  shows "rs ! j = (a, b)" and "cacheKnown srv st2"
    and "timeRanges st2 (binlogFiles ! j) = Some (rs ! j)"
proof -
  have "rs ! j = (a, b) \<and> cacheKnown srv st2 \<and>
        timeRanges st2 (binlogFiles ! j) = Some (rs ! j)"
    using look
  proof (cases rule: lookupRange_Inr)
    case cached
    with cacheKnown_range [OF ro ck j, of "(a, b)"] ck show ?thesis by simp
  next
    case extracted
    with ro j have r: "rs ! j = (a, b)" unfolding rangesOf_def by metis
    have "cacheKnown srv st2"
      unfolding cacheKnown_def
    proof (intro allI impI)
      fix g r
      assume g: "timeRanges st2 g = Some r"
      show "\<exists>k. GetTimeRangeForBinlog (srv k g) g = Inr r"
      proof (cases "g = binlogFiles ! j")
        case True
        with g extracted show ?thesis by auto
      next
        case False
        with g extracted have "timeRanges st g = Some r" by simp
        with ck show ?thesis unfolding cacheKnown_def by blast
      qed
    qed
    with r extracted show ?thesis by simp
  qed
  then show "rs ! j = (a, b)" and "cacheKnown srv st2"
    and "timeRanges st2 (binlogFiles ! j) = Some (rs ! j)" by simp_all
qed

lemma rangesIncreasing_nth:
  assumes "rangesIncreasing rs"
  shows "j < length rs \<Longrightarrow> fst (rs ! j) \<le> snd (rs ! j)"
    and "j < k \<Longrightarrow> k < length rs \<Longrightarrow> snd (rs ! j) < fst (rs ! k)"
    and "j \<le> k \<Longrightarrow> k < length rs \<Longrightarrow> snd (rs ! j) \<le> snd (rs ! k)"
proof -
  show 1: "fst (rs ! j) \<le> snd (rs ! j)" if "j < length rs" for j
    using assms that by (simp add: rangesIncreasing_def)
  show 2: "snd (rs ! j) < fst (rs ! k)" if "j < k" "k < length rs" for j k
    using assms that by (simp add: rangesIncreasing_def sorted_wrt_iff_nth_less)
  show "snd (rs ! j) \<le> snd (rs ! k)" if "j \<le> k" "k < length rs"
  proof (cases "j = k")
    case True
    then show ?thesis by simp
  next
    case False
    with that have "j < k" by simp
    from 2 [OF this that(2)] 1 [OF that(2)] show ?thesis by simp
  qed
qed

lemma searchLoop_finds:
  assumes ro: "rangesOf srv binlogFiles rs" and inc: "rangesIncreasing rs"
    and i: "i < length binlogFiles"
    and lo: "fst (rs ! i) \<le> targetTime" and hi: "targetTime \<le> snd (rs ! i)"
  shows "exitMatched (binlogFiles ! i)
           (searchLoop srv binlogFiles targetTime (initState (length binlogFiles)))"
proof (rule searchLoop_rule
    [where I = "\<lambda>st. anyFailed st \<or>
                  cacheKnown srv st \<and> left st \<le> int i \<and> int i \<le> right st"])
  from i show "anyFailed (initState (length binlogFiles)) \<or>
        cacheKnown srv (initState (length binlogFiles)) \<and>
        left (initState (length binlogFiles)) \<le> int i \<and>
        int i \<le> right (initState (length binlogFiles))"
    by (simp add: cacheKnown_init) (simp add: initState_def)
  show "0 \<le> left (initState (length binlogFiles))"
    and "right (initState (length binlogFiles)) < int (length binlogFiles)"
    by (simp_all add: initState_def)
next
  fix st mid st1
  assume look: "lookupRange srv st (binlogFiles ! nat mid) = Inl st1"
  from lookup_anyFailed(1) [OF look]
  show "if errorCount st1 > 3 then exitMatched (binlogFiles ! i) (Ended st1)
        else if mid > 0 then anyFailed (st1\<lparr>right := mid - 1\<rparr>) \<or>
            cacheKnown srv (st1\<lparr>right := mid - 1\<rparr>) \<and>
            left (st1\<lparr>right := mid - 1\<rparr>) \<le> int i \<and> int i \<le> right (st1\<lparr>right := mid - 1\<rparr>)
        else anyFailed (st1\<lparr>left := mid + 1\<rparr>) \<or>
            cacheKnown srv (st1\<lparr>left := mid + 1\<rparr>) \<and>
            left (st1\<lparr>left := mid + 1\<rparr>) \<le> int i \<and> int i \<le> right (st1\<lparr>left := mid + 1\<rparr>)"
    by (simp add: exitMatched_def)
next
  fix st mid st2 startTime endTime
  assume I: "anyFailed st \<or> cacheKnown srv st \<and> left st \<le> int i \<and> int i \<le> right st"
    and b: "0 \<le> left st" "right st < int (length binlogFiles)" "left st \<le> mid" "mid \<le> right st"
    and look: "lookupRange srv st (binlogFiles ! nat mid) = Inr (st2, startTime, endTime)"
  show "if \<not> targetTime < startTime \<and> \<not> endTime < targetTime
          then exitMatched (binlogFiles ! i) (Matched st2 (binlogFiles ! nat mid))
        else if targetTime < startTime
          then anyFailed (st2\<lparr>right := mid - 1\<rparr>) \<or>
            cacheKnown srv (st2\<lparr>right := mid - 1\<rparr>) \<and>
            left (st2\<lparr>right := mid - 1\<rparr>) \<le> int i \<and> int i \<le> right (st2\<lparr>right := mid - 1\<rparr>)
        else anyFailed (st2\<lparr>left := mid + 1\<rparr>) \<or>
            cacheKnown srv (st2\<lparr>left := mid + 1\<rparr>) \<and>
            left (st2\<lparr>left := mid + 1\<rparr>) \<le> int i \<and> int i \<le> right (st2\<lparr>left := mid + 1\<rparr>)"
  proof (cases "anyFailed st")
    case True
    from lookup_anyFailed(2) [OF look True] show ?thesis by (simp add: exitMatched_def)
  next
    case False
    with I have ck: "cacheKnown srv st" and li: "left st \<le> int i" "int i \<le> right st"
      by simp_all
    from b have m: "nat mid < length binlogFiles" "0 \<le> mid" by simp_all
    note k = lookup_known_Inr [OF ro ck m(1) look]
    from look have bd: "left st2 = left st" "right st2 = right st"
      by (simp_all add: lookupRange_bounds)
    from ro have len: "length rs = length binlogFiles" by (simp add: rangesOf_def)
    consider "nat mid = i" | "nat mid < i" | "i < nat mid" by linarith
    then show ?thesis
    proof cases
      case 1
      with k(1) lo hi show ?thesis by (auto simp: exitMatched_def)
    next
      case 2
      with rangesIncreasing_nth(2) [OF inc 2] i len
      have "snd (rs ! nat mid) < fst (rs ! i)" by simp
      with k(1) lo have after: "endTime < targetTime" by simp
      from rangesIncreasing_nth(1) [OF inc, of "nat mid"] m len k(1)
      have "startTime \<le> endTime" by simp
      with after have nb: "\<not> targetTime < startTime" by simp
      from 2 m have "mid + 1 \<le> int i" by linarith
      with nb after k(2) bd li show ?thesis by simp
    next
      case 3
      with rangesIncreasing_nth(2) [OF inc 3] m len
      have "snd (rs ! i) < fst (rs ! nat mid)" by simp
      with k(1) hi have before: "targetTime < startTime" by simp
      from 3 m have "int i \<le> mid - 1" by linarith
      with before k(2) bd li show ?thesis by simp
    qed
  qed
next
  fix st
  assume "anyFailed st \<or> cacheKnown srv st \<and> left st \<le> int i \<and> int i \<le> right st"
    and "\<not> left st \<le> right st"
  then show "exitMatched (binlogFiles ! i) (Ended st)" by (auto simp: exitMatched_def)
qed

text \<open>
  C1. For segments whose ranges are increasing, when the target lies within the range of
  the \<open>i\<close>-th segment and every extraction of the search succeeds, the result is the
  \<open>i\<close>-th segment as an exact match.
\<close>

theorem target_in_range_found:
  assumes ro: "rangesOf srv binlogFiles rs" and inc: "rangesIncreasing rs"
    and i: "i < length binlogFiles"
    and lo: "fst (rs ! i) \<le> targetTime" and hi: "targetTime \<le> snd (rs ! i)"
    and ok: "\<forall>x \<in> set (extractions srv rank binlogFiles targetTime). snd x"
  shows "BinarySearchBinlogs srv rank binlogFiles targetTime = Some (binlogFiles ! i, True)"
proof -
  consider "length binlogFiles = 1" | "2 \<le> length binlogFiles"
    using i by linarith
  then show ?thesis
  proof cases
    case 1
    with i have i0: "i = 0" by simp
    show ?thesis
    proof (cases "GetTimeRangeForBinlog (srv 0 (binlogFiles ! 0)) (binlogFiles ! 0)")
      case (Inl err)
      with 1 ok show ?thesis by (simp add: extractions_def searchRun_def)
    next
      case (Inr r)
      with ro i i0 have "r = rs ! 0" unfolding rangesOf_def by metis
      with Inr 1 i0 lo hi show ?thesis
        by (cases "rs ! 0") (simp add: BinarySearchBinlogs_def searchRun_def)
    qed
  next
    case 2
    then have ne: "binlogFiles \<noteq> []" "length binlogFiles \<noteq> 1" by auto
    let ?x = "searchLoop srv binlogFiles targetTime (initState (length binlogFiles))"
    note fin = searchLoop_finds [OF ro inc i lo hi]
    show ?thesis
    proof (cases ?x)
      case (Matched st g)
      with ne have tr: "extractions srv rank binlogFiles targetTime = syncs st"
        and res: "BinarySearchBinlogs srv rank binlogFiles targetTime = Some (g, True)"
        by (simp_all add: extractions_def BinarySearchBinlogs_def searchRun_def)
      from ok tr have "\<not> anyFailed st" by (simp add: anyFailed_def)
      with fin Matched res show ?thesis by (simp add: exitMatched_def)
    next
      case (Ended st)
      with ne have tr: "extractions srv rank binlogFiles targetTime = syncs st"
        by (simp add: extractions_def searchRun_def)
      from ok tr have "\<not> anyFailed st" by (simp add: anyFailed_def)
      with fin Ended show ?thesis by (simp add: exitMatched_def)
    next
      case IndexPanic
      with fin show ?thesis by (simp add: exitMatched_def)
    qed
  qed
qed

theorem target_in_range_found_witness:
  "rangesOf scenario [''seg1'', ''seg2'', ''seg3''] [(100, 200), (201, 300), (301, 400)] \<and>
   rangesIncreasing [(100, 200), (201, 300), (301, 400)] \<and>
   BinarySearchBinlogs scenario (\<lambda>f. 0) [''seg1'', ''seg2'', ''seg3''] 250 = Some (''seg2'', True)"
proof -
  have "\<forall>x \<in> set (extractions scenario (\<lambda>f. 0) [''seg1'', ''seg2'', ''seg3''] 250). snd x"
    by (simp add: extractions_def scenario_250)
  from target_in_range_found [OF scenario_rangesOf scenario_increasing _ _ _ this, of 1]
  have "BinarySearchBinlogs scenario (\<lambda>f. 0) [''seg1'', ''seg2'', ''seg3''] 250
          = Some (''seg2'', True)" by simp
  with scenario_rangesOf scenario_increasing show ?thesis by simp
qed

lemma searchLoop_past_last:
  assumes ro: "rangesOf srv binlogFiles rs" and inc: "rangesIncreasing rs"
    and ne: "binlogFiles \<noteq> []"
    and past: "snd (last rs) < targetTime"
  shows "exitPast srv binlogFiles rs
           (searchLoop srv binlogFiles targetTime (initState (length binlogFiles)))"
proof (rule searchLoop_rule [where I = "pastInv srv binlogFiles rs"])
  from ne show "pastInv srv binlogFiles rs (initState (length binlogFiles))"
    by (simp add: pastInv_def cacheInv_init cacheKnown_init) (simp add: initState_def Suc_le_eq)
  show "0 \<le> left (initState (length binlogFiles))"
    and "right (initState (length binlogFiles)) < int (length binlogFiles)"
    by (simp_all add: initState_def)
next
  fix st mid st1
  assume look: "lookupRange srv st (binlogFiles ! nat mid) = Inl st1"
  from lookup_anyFailed(1) [OF look]
  show "if errorCount st1 > 3 then exitPast srv binlogFiles rs (Ended st1)
        else if mid > 0 then pastInv srv binlogFiles rs (st1\<lparr>right := mid - 1\<rparr>)
        else pastInv srv binlogFiles rs (st1\<lparr>left := mid + 1\<rparr>)"
    by (simp add: exitPast_def pastInv_def)
next
  fix st mid st2 startTime endTime
  assume I: "pastInv srv binlogFiles rs st"
    and b: "0 \<le> left st" "right st < int (length binlogFiles)" "left st \<le> mid" "mid \<le> right st"
    and look: "lookupRange srv st (binlogFiles ! nat mid) = Inr (st2, startTime, endTime)"
  show "if \<not> targetTime < startTime \<and> \<not> endTime < targetTime
          then exitPast srv binlogFiles rs (Matched st2 (binlogFiles ! nat mid))
        else if targetTime < startTime
          then pastInv srv binlogFiles rs (st2\<lparr>right := mid - 1\<rparr>)
        else pastInv srv binlogFiles rs (st2\<lparr>left := mid + 1\<rparr>)"
  proof (cases "anyFailed st")
    case True
    from lookup_anyFailed(2) [OF look True] show ?thesis
      by (simp add: exitPast_def pastInv_def)
  next
    case False
    with I have c: "cacheInv binlogFiles st" and ck: "cacheKnown srv st"
      and r: "right st = int (length binlogFiles) - 1" by (simp_all add: pastInv_def)
    from b have m: "nat mid < length binlogFiles" "0 \<le> mid" by simp_all
    then have mem: "binlogFiles ! nat mid \<in> set binlogFiles" by simp
    note k = lookup_known_Inr [OF ro ck m(1) look]
    note c2 = cacheInv_lookup_Inr(1) [OF c mem look]
    from look have bd: "left st2 = left st" "right st2 = right st"
      by (simp_all add: lookupRange_bounds)
    from ro have len: "length rs = length binlogFiles" by (simp add: rangesOf_def)
    with ne have rs: "rs \<noteq> []" by auto
    have "snd (rs ! nat mid) \<le> snd (rs ! (length rs - 1))"
      using m len rs by (intro rangesIncreasing_nth(3) [OF inc]) simp_all
    with rs have "snd (rs ! nat mid) \<le> snd (last rs)" by (simp add: last_conv_nth)
    with k(1) past have after: "endTime < targetTime" by simp
    from rangesIncreasing_nth(1) [OF inc, of "nat mid"] m len k(1)
    have "startTime \<le> endTime" by simp
    with after have nb: "\<not> targetTime < startTime" by simp
    have "mid + 1 \<le> right st \<or> timeRanges st2 (last binlogFiles) = Some (last rs)"
    proof (cases "mid + 1 \<le> right st")
      case True
      then show ?thesis by simp
    next
      case False
      with b r have "nat mid = length binlogFiles - 1" by simp
      with ne rs len have "binlogFiles ! nat mid = last binlogFiles" "rs ! nat mid = last rs"
        by (simp_all add: last_conv_nth)
      with k(3) show ?thesis by simp
    qed
    with after nb c2 k(2) bd r show ?thesis by (simp add: pastInv_def)
  qed
next
  fix st
  assume "pastInv srv binlogFiles rs st" and "\<not> left st \<le> right st"
  then show "exitPast srv binlogFiles rs (Ended st)"
    by (auto simp: exitPast_def pastInv_def)
qed

lemma sorted_last_empty:
  assumes "sorted (xs :: string list)" and "xs \<noteq> []" and "last xs = ''''"
  shows "xs ! 0 = ''''"
proof -
  from assms(2) have "xs ! 0 \<le> xs ! (length xs - 1)"
    using assms(1) by (intro sorted_nth_mono) simp_all
  with assms(2,3) have "xs ! 0 \<le> ''''" by (simp add: last_conv_nth)
  then show ?thesis by simp
qed

text \<open>
  C6. For a list of segments in name order whose ranges are increasing, when the target
  is after the end of the last segment and every extraction of the search succeeds, the
  result is the last segment and not an exact match.
\<close>

theorem target_after_last_segment:
  assumes ro: "rangesOf srv binlogFiles rs" and inc: "rangesIncreasing rs"
    and srt: "sorted binlogFiles" and ne: "binlogFiles \<noteq> []"
    and past: "snd (last rs) < targetTime"
    and ok: "\<forall>x \<in> set (extractions srv rank binlogFiles targetTime). snd x"
  shows "BinarySearchBinlogs srv rank binlogFiles targetTime = Some (last binlogFiles, False)"
proof -
  from ro have len: "length rs = length binlogFiles" by (simp add: rangesOf_def)
  with ne have rs: "rs \<noteq> []" by auto
  from ne have "length binlogFiles \<noteq> 0" by simp
  then consider "length binlogFiles = 1" | "2 \<le> length binlogFiles"
    by linarith
  then show ?thesis
  proof cases
    case 1
    then have l: "last binlogFiles = binlogFiles ! 0" "last rs = rs ! 0"
      using len ne rs by (simp_all add: last_conv_nth)
    show ?thesis
    proof (cases "GetTimeRangeForBinlog (srv 0 (binlogFiles ! 0)) (binlogFiles ! 0)")
      case (Inl err)
      with 1 ok show ?thesis by (simp add: extractions_def searchRun_def)
    next
      case (Inr r)
      with ro 1 have "r = rs ! 0" unfolding rangesOf_def by (metis zero_less_one)
      with Inr 1 l past show ?thesis
        by (cases "rs ! 0") (simp add: BinarySearchBinlogs_def searchRun_def)
    qed
  next
    case 2
    then have two: "length binlogFiles \<noteq> 1" by simp
    let ?x = "searchLoop srv binlogFiles targetTime (initState (length binlogFiles))"
    note fin = searchLoop_past_last [OF ro inc ne past]
    have "\<exists>st. ?x = Ended st \<and> cacheInv binlogFiles st \<and> cacheKnown srv st \<and>
            timeRanges st (last binlogFiles) = Some (last rs)"
    proof (cases ?x)
      case (Matched st g)
      with ne two have "extractions srv rank binlogFiles targetTime = syncs st"
        by (simp add: extractions_def searchRun_def)
      with ok have "\<not> anyFailed st" by (simp add: anyFailed_def)
      with fin Matched show ?thesis by (simp add: exitPast_def)
    next
      case (Ended st)
      with ne two have "extractions srv rank binlogFiles targetTime = syncs st"
        by (simp add: extractions_def searchRun_def)
      with ok have "\<not> anyFailed st" by (simp add: anyFailed_def)
      with fin Ended show ?thesis by (simp add: exitPast_def)
    next
      case IndexPanic
      with fin show ?thesis by (simp add: exitPast_def)
    qed
    then obtain st where
      x: "?x = Ended st" and c: "cacheInv binlogFiles st"
      and ck: "cacheKnown srv st"
      and l: "timeRanges st (last binlogFiles) = Some (last rs)"
      by blast
    have name: "last binlogFiles \<noteq> ''''"
    proof
      assume e: "last binlogFiles = ''''"
      with srt ne have first: "binlogFiles ! 0 = last binlogFiles"
        by (simp add: sorted_last_empty)
      from ne have z: "0 < length binlogFiles" by simp
      from cacheKnown_range [OF ro ck z, of "last rs"] l first
      have "last rs = rs ! 0" by simp
      with rs have eq: "rs ! (length rs - 1) = rs ! 0" by (simp add: last_conv_nth)
      have "snd (rs ! 0) < fst (rs ! (length rs - 1))"
        using 2 len by (intro rangesIncreasing_nth(2) [OF inc]) simp_all
      moreover have "fst (rs ! (length rs - 1)) \<le> snd (rs ! (length rs - 1))"
        using rs by (intro rangesIncreasing_nth(1) [OF inc]) simp
      ultimately show False using eq by simp
    qed
    note v = cacheInv_valid [OF c]
    let ?fs = "sort_key rank (validFiles st)"
    have all: "\<forall>g \<in> set ?fs. endOf (timeRanges st) g \<le> targetTime \<and>
        (g \<noteq> last binlogFiles \<longrightarrow> endOf (timeRanges st) g < snd (last rs))"
    proof
      fix g
      assume "g \<in> set ?fs"
      with v obtain r where r: "timeRanges st g = Some r" and "g \<in> set binlogFiles" by auto
      then obtain j where j: "j < length binlogFiles" "binlogFiles ! j = g"
        by (auto simp: in_set_conv_nth)
      with cacheKnown_range [OF ro ck j(1), of r] r have rj: "rs ! j = r" by simp
      from r have e: "endOf (timeRanges st) g = snd r" by (cases r) simp
      have "snd (rs ! j) \<le> snd (rs ! (length rs - 1))"
        using j len by (intro rangesIncreasing_nth(3) [OF inc]) simp_all
      with rs have le: "snd (rs ! j) \<le> snd (last rs)" by (simp add: last_conv_nth)
      have "snd (rs ! j) < snd (last rs)" if "g \<noteq> last binlogFiles"
      proof -
        from that j ne have "j \<noteq> length binlogFiles - 1" by (auto simp: last_conv_nth)
        with j len have lt: "j < length rs - 1" by simp
        have "snd (rs ! j) < fst (rs ! (length rs - 1))"
          using lt rs by (intro rangesIncreasing_nth(2) [OF inc]) simp_all
        moreover have "fst (rs ! (length rs - 1)) \<le> snd (rs ! (length rs - 1))"
          using rs by (intro rangesIncreasing_nth(1) [OF inc]) simp
        ultimately show ?thesis using rs by (simp add: last_conv_nth)
      qed
      with le past e rj show "endOf (timeRanges st) g \<le> targetTime \<and>
        (g \<noteq> last binlogFiles \<longrightarrow> endOf (timeRanges st) g < snd (last rs))" by auto
    qed
    from l have el: "endOf (timeRanges st) (last binlogFiles) = snd (last rs)"
      by (cases "last rs") simp
    from l v(1) have mem: "last binlogFiles \<in> set ?fs" by auto
    have "closestLoop (timeRanges st) targetTime ?fs ('''', zeroTime) =
          (last binlogFiles, snd (last rs))"
      using mem by (intro closestLoop_last [OF all el name]) simp_all
    moreover from mem have "validFiles st \<noteq> []" by auto
    ultimately have "fallback rank binlogFiles targetTime st = (last binlogFiles, False)"
      using name by (simp add: fallback_def)
    with x 2 ne show ?thesis by (simp add: BinarySearchBinlogs_def searchRun_def)
  qed
qed

theorem target_after_last_segment_witness:
  "rangesOf scenario [''seg1'', ''seg2'', ''seg3''] [(100, 200), (201, 300), (301, 400)] \<and>
   rangesIncreasing [(100, 200), (201, 300), (301, 400)] \<and>
   sorted [''seg1'', ''seg2'', ''seg3''] \<and>
   BinarySearchBinlogs scenario (\<lambda>f. 0) [''seg1'', ''seg2'', ''seg3''] 500 = Some (''seg3'', False)"
proof -
  have "\<forall>x \<in> set (extractions scenario (\<lambda>f. 0) [''seg1'', ''seg2'', ''seg3''] 500). snd x"
    by (simp add: extractions_def scenario_500)
  moreover have s: "sorted [''seg1'', ''seg2'', ''seg3'']" by simp
  ultimately have "BinarySearchBinlogs scenario (\<lambda>f. 0) [''seg1'', ''seg2'', ''seg3''] 500
          = Some (''seg3'', False)"
    using target_after_last_segment [OF scenario_rangesOf scenario_increasing, of 500 "\<lambda>f. 0"]
    by simp
  with scenario_rangesOf scenario_increasing s show ?thesis by simp
qed

end

